theory Spec2Isabelle
  imports Main "HOL-Library.Sublist"
begin

section \<open>Text, numbers and errors of the Python programs\<close>

text \<open>
  Both programs (\<^verbatim>\<open>main.py\<close> and \<^verbatim>\<open>new_main.py\<close>) work on Python \<^verbatim>\<open>str\<close> values, which are
  sequences of Unicode code points. A code point is a natural number here and a string a
  list of them; \<open>ascii\<close> embeds an ASCII literal of the source.
\<close>

type_synonym codepoint = nat
type_synonym ustr = "codepoint list"

definition ascii :: "string \<Rightarrow> ustr" where
  "ascii s = map of_char s"

text \<open>
  The class \<^verbatim>\<open>\d\<close> of the \<^verbatim>\<open>re\<close> module on a \<^verbatim>\<open>str\<close> pattern is the Unicode category Nd
  (decimal digit), not only \<^verbatim>\<open>0-9\<close>. The table is the one of Unicode 15.0 (CPython 3.12, the
  first interpreter that parses the nested quotes of \<^verbatim>\<open>new_main.py\<close>, line 249); each pair is
  an inclusive range of code points.
\<close>

definition nd_ranges :: "(codepoint \<times> codepoint) list" where
  "nd_ranges =
    [(48, 57), (1632, 1641), (1776, 1785), (1984, 1993), (2406, 2415), (2534, 2543),
     (2662, 2671), (2790, 2799), (2918, 2927), (3046, 3055), (3174, 3183), (3302, 3311),
     (3430, 3439), (3558, 3567), (3664, 3673), (3792, 3801), (3872, 3881), (4160, 4169),
     (4240, 4249), (6112, 6121), (6160, 6169), (6470, 6479), (6608, 6617), (6784, 6793),
     (6800, 6809), (6992, 7001), (7088, 7097), (7232, 7241), (7248, 7257), (42528, 42537),
     (43216, 43225), (43264, 43273), (43472, 43481), (43504, 43513), (43600, 43609),
     (44016, 44025), (65296, 65305), (66720, 66729), (68912, 68921), (69734, 69743),
     (69872, 69881), (69942, 69951), (70096, 70105), (70384, 70393), (70736, 70745),
     (70864, 70873), (71248, 71257), (71360, 71369), (71472, 71481), (71904, 71913),
     (72016, 72025), (72784, 72793), (73040, 73049), (73120, 73129), (73552, 73561),
     (92768, 92777), (92864, 92873), (93008, 93017), (120782, 120831), (123200, 123209),
     (123632, 123641), (124144, 124153), (125264, 125273), (130032, 130041)]"

definition is_digit :: "codepoint \<Rightarrow> bool" where
  "is_digit c = list_ex (\<lambda>(lo, hi). lo \<le> c \<and> c \<le> hi) nd_ranges"

text \<open>The exceptions the modelled code can raise.\<close>

datatype pyerr = KeyError | TypeError | AttributeError | IndexError

subsection \<open>Decimal rendering of integers\<close>

text \<open>
  \<^verbatim>\<open>str(n)\<close> of a Python \<^verbatim>\<open>int\<close>: decimal digits, most significant first, no padding,
  a minus sign for a negative number.
\<close>

fun str_nat :: "nat \<Rightarrow> ustr" where
  "str_nat n = (if n < 10 then [48 + n] else str_nat (n div 10) @ [48 + n mod 10])"

declare str_nat.simps [simp del]

definition str_int :: "int \<Rightarrow> ustr" where
  "str_int i = (if i < 0 then 45 # str_nat (nat (- i)) else str_nat (nat i))"

text \<open>
  The format specification \<^verbatim>\<open>02d\<close>: zero fill to a minimum width of two, the sign counted
  in the width and written before the fill.
\<close>

definition fmt_02d :: "int \<Rightarrow> ustr" where
  "fmt_02d i =
     (if i < 0 then 45 # str_nat (nat (- i))
      else replicate (2 - length (str_nat (nat i))) 48 @ str_nat (nat i))"

subsection \<open>\<^verbatim>\<open>format_duration\<close> (main.py 33-36, new_main.py 36-39)\<close>

text \<open>
  \<^verbatim>\<open>minutes, seconds = divmod(seconds, 60)\<close> and \<^verbatim>\<open>f"{minutes}:{seconds:02d}"\<close>. Python's
  \<^verbatim>\<open>divmod\<close> on integers is floor division, as \<open>div\<close> and \<open>mod\<close> on \<open>int\<close> are.
\<close>

definition format_duration :: "int \<Rightarrow> ustr" where
  "format_duration seconds =
     (let minutes = seconds div 60; seconds' = seconds mod 60
      in str_int minutes @ ascii '':'' @ fmt_02d seconds')"

text \<open>Reading a decimal numeral back, to state what a rendering denotes.\<close>

definition dec_val :: "ustr \<Rightarrow> nat" where
  "dec_val s = foldl (\<lambda>a c. 10 * a + (c - 48)) 0 s"

definition ascii_digits :: "ustr \<Rightarrow> bool" where
  "ascii_digits s = list_all (\<lambda>c. 48 \<le> c \<and> c \<le> 57) s"

section \<open>The link extractor\<close>

subsection \<open>The fragment of \<^verbatim>\<open>re\<close> that the patterns use\<close>

text \<open>
  The three patterns are built from literal characters, \<^verbatim>\<open>\d+\<close> and one capturing group
  \<^verbatim>\<open>(\d+)\<close>. A pattern is the list of its atoms.
\<close>

datatype atom = Chr codepoint | Digits | Group_Digits

definition lit :: "string \<Rightarrow> atom list" where
  "lit s = map Chr (ascii s)"

text \<open>
  \<^verbatim>\<open>\d+\<close> is greedy and backtracks: the engine first takes the whole run of digits, then one
  digit less, down to a single digit, and keeps the first length with which the rest of
  the pattern matches. \<open>candidates\<close> lists the lengths in that order.
\<close>

fun first_some :: "'a option list \<Rightarrow> 'a option" where
  "first_some [] = None"
| "first_some (None # xs) = first_some xs"
| "first_some (Some x # xs) = Some x"

definition digit_run :: "ustr \<Rightarrow> nat" where
  "digit_run s = length (takeWhile is_digit s)"

definition candidates :: "ustr \<Rightarrow> nat list" where
  "candidates s = rev [1 ..< Suc (digit_run s)]"

text \<open>
  \<open>match_here p s\<close> matches the pattern at the start of \<open>s\<close>; on success it returns the
  texts of the capturing groups, in order.
\<close>

fun match_here :: "atom list \<Rightarrow> ustr \<Rightarrow> ustr list option" where
  "match_here [] s = Some []"
| "match_here (Chr c # p) s =
     (case s of [] \<Rightarrow> None | x # s' \<Rightarrow> if x = c then match_here p s' else None)"
| "match_here (Digits # p) s =
     first_some (map (\<lambda>k. match_here p (drop k s)) (candidates s))"
| "match_here (Group_Digits # p) s =
     first_some (map (\<lambda>k. map_option (\<lambda>g. take k s # g) (match_here p (drop k s)))
                     (candidates s))"

text \<open>\<^verbatim>\<open>re.search\<close>: the match at the leftmost position where there is one, the end included.\<close>

fun re_search :: "atom list \<Rightarrow> ustr \<Rightarrow> ustr list option" where
  "re_search p [] = match_here p []"
| "re_search p (c # cs) =
     (case match_here p (c # cs) of Some g \<Rightarrow> Some g | None \<Rightarrow> re_search p cs)"

text \<open>\<^verbatim>\<open>match.group(i)\<close> for \<open>i \<ge> 1\<close>; a group the pattern does not have raises IndexError.\<close>

definition group :: "ustr list \<Rightarrow> nat \<Rightarrow> pyerr + ustr" where
  "group gs i = (if 1 \<le> i \<and> i \<le> length gs then Inr (gs ! (i - 1)) else Inl IndexError)"

subsection \<open>\<^verbatim>\<open>extract_track_id\<close> (main.py 18-30, new_main.py 21-33)\<close>

text \<open>
  The function is the same text in both files: the list of the three patterns, tried in
  order, the first group of the first pattern that is found anywhere in the text, and
  \<^verbatim>\<open>None\<close> when no pattern is found. \<^verbatim>\<open>\?\<close> in the third pattern is a literal question
  mark.
\<close>

definition patterns :: "atom list list" where
  "patterns =
     [lit ''track/'' @ [Group_Digits],
      lit ''album/'' @ [Digits] @ lit ''/track/'' @ [Group_Digits],
      lit ''playlists/'' @ [Digits] @ lit ''/'' @ [Digits] @ lit ''?trackId='' @ [Group_Digits]]"

fun first_match :: "atom list list \<Rightarrow> ustr \<Rightarrow> pyerr + ustr option" where
  "first_match [] url = Inr None"
| "first_match (pattern # ps) url =
     (case re_search pattern url of
        Some m \<Rightarrow> (case group m 1 of Inl e \<Rightarrow> Inl e | Inr t \<Rightarrow> Inr (Some t))
      | None \<Rightarrow> first_match ps url)"

definition extract_track_id :: "ustr \<Rightarrow> pyerr + ustr option" where
  "extract_track_id url = first_match patterns url"

text \<open>
  The variant the refinement claim compares with: the same loop over the list without the
  album-qualified pattern.
\<close>

definition patterns_without_album :: "atom list list" where
  "patterns_without_album =
     [lit ''track/'' @ [Group_Digits],
      lit ''playlists/'' @ [Digits] @ lit ''/'' @ [Digits] @ lit ''?trackId='' @ [Group_Digits]]"

text \<open>Auxiliary notions for the statements: the number of groups of a pattern, and a
  literal followed by a digit at the start of a text or before a position of it.\<close>

fun count_groups :: "atom list \<Rightarrow> nat" where
  "count_groups [] = 0"
| "count_groups (Group_Digits # p) = Suc (count_groups p)"
| "count_groups (_ # p) = count_groups p"

definition link_at :: "ustr \<Rightarrow> ustr \<Rightarrow> bool" where
  "link_at l t = (take (length l) t = l \<and>
     (case drop (length l) t of [] \<Rightarrow> False | d # _ \<Rightarrow> is_digit d))"

definition no_link_before :: "ustr \<Rightarrow> nat \<Rightarrow> ustr \<Rightarrow> bool" where
  "no_link_before l n s = list_all (\<lambda>i. \<not> link_at l (drop i s)) [0 ..< n]"

definition no_digit_next :: "ustr \<Rightarrow> bool" where
  "no_digit_next post = (case post of [] \<Rightarrow> True | d # _ \<Rightarrow> \<not> is_digit d)"

section \<open>Properties of \<^verbatim>\<open>format_duration\<close>\<close>

lemma str_nat_nonempty: "str_nat n \<noteq> []"
  by (subst str_nat.simps) simp

lemma ascii_digits_str_nat: "ascii_digits (str_nat n)"
proof (induction n rule: str_nat.induct)
  case (1 n)
  show ?case
  proof (cases "n < 10")
    case True
    then show ?thesis
      by (subst str_nat.simps) (simp add: ascii_digits_def)
  next
    case False
    have "n mod 10 < 10" by simp
    then have "48 + n mod 10 \<le> 57" by linarith
    with False 1 show ?thesis
      by (subst str_nat.simps) (simp add: ascii_digits_def)
  qed
qed

lemma dec_val_snoc: "dec_val (s @ [c]) = 10 * dec_val s + (c - 48)"
  by (simp add: dec_val_def)

lemma dec_val_str_nat: "dec_val (str_nat n) = n"
proof (induction n rule: str_nat.induct)
  case (1 n)
  show ?case
  proof (cases "n < 10")
    case True
    then show ?thesis
      by (subst str_nat.simps) (simp add: dec_val_def)
  next
    case False
    with 1 have "dec_val (str_nat (n div 10)) = n div 10" by simp
    with False show ?thesis
      by (subst str_nat.simps) (simp add: dec_val_snoc)
  qed
qed

lemma hd_str_nat: "hd (str_nat n) = 48 \<Longrightarrow> n = 0"
proof (induction n rule: str_nat.induct)
  case (1 n)
  show ?case
  proof (cases "n < 10")
    case True
    with 1(2) show ?thesis
      by (subst (asm) str_nat.simps) simp
  next
    case False
    with 1(2) have "hd (str_nat (n div 10)) = 48"
      by (subst (asm) str_nat.simps) (simp add: str_nat_nonempty)
    with 1(1) False have "n div 10 = 0" by simp
    with False show ?thesis by simp
  qed
qed

lemma length_str_nat_small: "n < 10 \<Longrightarrow> length (str_nat n) = 1"
  by (subst str_nat.simps) simp

lemma length_str_nat_two: "10 \<le> n \<Longrightarrow> n < 100 \<Longrightarrow> length (str_nat n) = 2"
  by (subst str_nat.simps) (simp add: length_str_nat_small)

lemma fmt_02d_seconds:
  assumes "0 \<le> i" "i < 60"
  shows "length (fmt_02d i) = 2 \<and> ascii_digits (fmt_02d i) \<and> dec_val (fmt_02d i) = nat i"
proof (cases "nat i < 10")
  case True
  then have "fmt_02d i = 48 # str_nat (nat i)"
    using assms by (simp add: fmt_02d_def length_str_nat_small)
  moreover have "dec_val (48 # str_nat (nat i)) = dec_val (str_nat (nat i))"
    by (simp add: dec_val_def)
  ultimately show ?thesis
    using True ascii_digits_str_nat [of "nat i"]
    by (simp add: length_str_nat_small dec_val_str_nat ascii_digits_def)
next
  case False
  then have "length (str_nat (nat i)) = 2"
    using assms by (intro length_str_nat_two) auto
  then have "fmt_02d i = str_nat (nat i)"
    using assms by (simp add: fmt_02d_def)
  then show ?thesis
    using \<open>length (str_nat (nat i)) = 2\<close>
    by (simp add: ascii_digits_str_nat dec_val_str_nat)
qed

text \<open>
  Claim C3. On every non-negative number of seconds \<open>format_duration\<close> returns the minutes
  (the quotient by 60) as a decimal numeral without padding, a colon, and the seconds (the
  remainder) as exactly two decimal digits; there is no hour rollover, and the five values
  the specification lists come out as listed.
\<close>

theorem format_duration_spec:
  assumes "0 \<le> n"
  shows "(\<exists>m s. format_duration n = m @ ascii '':'' @ s
            \<and> m \<noteq> [] \<and> ascii_digits m \<and> (length m = 1 \<or> hd m \<noteq> 48)
            \<and> int (dec_val m) = n div 60
            \<and> length s = 2 \<and> ascii_digits s \<and> int (dec_val s) = n mod 60)
       \<and> format_duration 0 = ascii ''0:00''
       \<and> format_duration 59 = ascii ''0:59''
       \<and> format_duration 60 = ascii ''1:00''
       \<and> format_duration 125 = ascii ''2:05''
       \<and> format_duration 3600 = ascii ''60:00''"
proof -
  let ?q = "n div 60" and ?r = "n mod 60"
  have q: "0 \<le> ?q" using assms by simp
  have r: "0 \<le> ?r" "?r < 60" by simp_all
  have fd: "format_duration n = str_nat (nat ?q) @ ascii '':'' @ fmt_02d ?r"
    using q by (simp add: format_duration_def str_int_def Let_def)
  have lead: "length (str_nat (nat ?q)) = 1 \<or> hd (str_nat (nat ?q)) \<noteq> 48"
  proof (cases "hd (str_nat (nat ?q)) = 48")
    case True
    then have "nat ?q = 0" by (rule hd_str_nat)
    then show ?thesis by (simp add: length_str_nat_small)
  next
    case False
    then show ?thesis by simp
  qed
  have gen: "\<exists>m s. format_duration n = m @ ascii '':'' @ s
            \<and> m \<noteq> [] \<and> ascii_digits m \<and> (length m = 1 \<or> hd m \<noteq> 48)
            \<and> int (dec_val m) = n div 60
            \<and> length s = 2 \<and> ascii_digits s \<and> int (dec_val s) = n mod 60"
    using fd lead q r fmt_02d_seconds [OF r]
    by (intro exI [of _ "str_nat (nat ?q)"] exI [of _ "fmt_02d ?r"])
       (simp add: str_nat_nonempty ascii_digits_str_nat dec_val_str_nat)
  have e0: "format_duration 0 = ascii ''0:00''"
    by (simp add: format_duration_def str_int_def fmt_02d_def str_nat.simps ascii_def)
  have e1: "format_duration 59 = ascii ''0:59''"
    by (simp add: format_duration_def str_int_def fmt_02d_def str_nat.simps ascii_def)
  have e2: "format_duration 60 = ascii ''1:00''"
    by (simp add: format_duration_def str_int_def fmt_02d_def str_nat.simps ascii_def)
  have e3: "format_duration 125 = ascii ''2:05''"
    by (simp add: format_duration_def str_int_def fmt_02d_def str_nat.simps ascii_def)
  have e4: "format_duration 3600 = ascii ''60:00''"
    by (simp add: format_duration_def str_int_def fmt_02d_def str_nat.simps ascii_def)
  from gen e0 e1 e2 e3 e4 show ?thesis by blast
qed

theorem format_duration_spec_witness:
  "(0::int) \<le> 185 \<and> format_duration 185 = ascii ''3:05''
     \<and> (\<exists>m s. format_duration 185 = m @ ascii '':'' @ s \<and> length s = 2
            \<and> int (dec_val m) = 185 div 60 \<and> int (dec_val s) = 185 mod 60)"
proof -
  have h: "(0::int) \<le> 185" by simp
  have v: "format_duration 185 = ascii ''3:05''"
    by (simp add: format_duration_def str_int_def fmt_02d_def str_nat.simps ascii_def)
  from format_duration_spec [OF h] have
    "\<exists>m s. format_duration 185 = m @ ascii '':'' @ s \<and> length s = 2
            \<and> int (dec_val m) = 185 div 60 \<and> int (dec_val s) = 185 mod 60"
    by blast
  with h v show ?thesis by blast
qed

section \<open>Properties of the link extractor\<close>

lemma first_some_Some: "first_some xs = Some r \<Longrightarrow> Some r \<in> set xs"
  by (induction xs rule: first_some.induct) auto

lemma first_some_None: "first_some xs = None \<longleftrightarrow> (\<forall>x\<in>set xs. x = None)"
  by (induction xs rule: first_some.induct) auto

lemma first_some_map_Some:
  "first_some (map f ks) = Some r \<Longrightarrow> \<exists>k\<in>set ks. f k = Some r"
  by (induction ks) (auto split: option.splits elim: first_some.elims)

lemma first_some_map_None:
  "first_some (map f ks) = None \<longleftrightarrow> (\<forall>k\<in>set ks. f k = None)"
  by (simp add: first_some_None)

lemma set_candidates: "k \<in> set (candidates s) \<longleftrightarrow> 1 \<le> k \<and> k \<le> digit_run s"
  by (auto simp: candidates_def)

lemma first_some_hd: "xs \<noteq> [] \<Longrightarrow> hd xs = Some r \<Longrightarrow> first_some xs = Some r"
  by (cases xs) auto

lemma take_digit_run: "k \<le> digit_run s \<Longrightarrow> list_all is_digit (take k s)"
proof -
  assume "k \<le> digit_run s"
  then have "take k s = take k (takeWhile is_digit s)"
    unfolding digit_run_def
    by (metis append_eq_conv_conj min.absorb2 take_take takeWhile_dropWhile_id take_append
        diff_is_0_eq' take_0 append_Nil2 min.commute)
  moreover have "list_all is_digit (takeWhile is_digit s)"
    by (simp add: list_all_iff) (meson set_takeWhileD)
  ultimately show ?thesis
    by (metis list_all_iff in_set_takeD)
qed

lemma digit_run_le: "digit_run s \<le> length s"
  by (simp add: digit_run_def length_takeWhile_le)

lemma match_here_groups:
  "match_here p s = Some gs \<Longrightarrow> list_all (\<lambda>g. g \<noteq> [] \<and> list_all is_digit g) gs"
proof (induction p s arbitrary: gs rule: match_here.induct)
  case (1 s)
  then show ?case by simp
next
  case (2 c p s)
  then show ?case by (auto split: list.splits if_splits)
next
  case (3 p s)
  from 3(2) obtain k where "k \<in> set (candidates s)"
    "match_here p (drop k s) = Some gs"
    unfolding match_here.simps by (blast dest: first_some_map_Some)
  with 3(1) show ?case by blast
next
  case (4 p s)
  from 4(2) obtain k where k: "k \<in> set (candidates s)"
    and "map_option (\<lambda>g. take k s # g) (match_here p (drop k s)) = Some gs"
    unfolding match_here.simps by (blast dest: first_some_map_Some)
  then obtain g where m: "match_here p (drop k s) = Some g" and gs: "gs = take k s # g"
    by auto
  from k have k1: "1 \<le> k" "k \<le> digit_run s" by (simp_all add: set_candidates)
  with digit_run_le [of s] have "take k s \<noteq> []" by auto
  moreover from k1 have "list_all is_digit (take k s)" by (simp add: take_digit_run)
  moreover from 4(1) [OF k m] have "list_all (\<lambda>g. g \<noteq> [] \<and> list_all is_digit g) g" .
  ultimately show ?case using gs by simp
qed

lemma match_here_count: "match_here p s = Some gs \<Longrightarrow> length gs = count_groups p"
proof (induction p s arbitrary: gs rule: match_here.induct)
  case (1 s)
  then show ?case by simp
next
  case (2 c p s)
  then show ?case by (auto split: list.splits if_splits)
next
  case (3 p s)
  from 3(2) obtain k where "k \<in> set (candidates s)"
    "match_here p (drop k s) = Some gs"
    unfolding match_here.simps by (blast dest: first_some_map_Some)
  with 3(1) have "length gs = count_groups p" by blast
  then show ?case by simp
next
  case (4 p s)
  from 4(2) obtain k where k: "k \<in> set (candidates s)"
    and "map_option (\<lambda>g. take k s # g) (match_here p (drop k s)) = Some gs"
    unfolding match_here.simps by (blast dest: first_some_map_Some)
  then obtain g where m: "match_here p (drop k s) = Some g" and gs: "gs = take k s # g"
    by auto
  from 4(1) [OF k m] gs show ?case by simp
qed

lemma re_search_Some: "re_search p s = Some gs \<Longrightarrow> \<exists>i\<le>length s. match_here p (drop i s) = Some gs"
proof (induction s)
  case Nil
  then show ?case by simp
next
  case (Cons c cs)
  show ?case
  proof (cases "match_here p (c # cs)")
    case None
    with Cons obtain i where "i \<le> length cs" "match_here p (drop i cs) = Some gs" by auto
    then show ?thesis by (intro exI [of _ "Suc i"]) simp
  next
    case (Some g)
    with Cons.prems show ?thesis by (intro exI [of _ 0]) simp
  qed
qed

lemma re_search_None: "re_search p s = None \<longleftrightarrow> (\<forall>i. match_here p (drop i s) = None)"
proof (induction s)
  case Nil
  then show ?case by simp
next
  case (Cons c cs)
  show ?case
  proof
    assume a: "re_search p (c # cs) = None"
    then have h: "match_here p (c # cs) = None" and t: "re_search p cs = None"
      by (auto split: option.splits)
    show "\<forall>i. match_here p (drop i (c # cs)) = None"
    proof
      fix i show "match_here p (drop i (c # cs)) = None"
        using h t Cons by (cases i) auto
    qed
  next
    assume a: "\<forall>i. match_here p (drop i (c # cs)) = None"
    then have "match_here p (drop 0 (c # cs)) = None" by blast
    moreover have "\<forall>i. match_here p (drop i cs) = None"
    proof
      fix i from a have "match_here p (drop (Suc i) (c # cs)) = None" by blast
      then show "match_here p (drop i cs) = None" by simp
    qed
    ultimately show "re_search p (c # cs) = None" using Cons by simp
  qed
qed

lemma match_here_Chrs:
  "match_here (map Chr l @ p) s =
     (if take (length l) s = l then match_here p (drop (length l) s) else None)"
proof (induction l arbitrary: s)
  case Nil
  then show ?case by simp
next
  case (Cons c l)
  show ?case
  proof (cases s)
    case Nil
    then show ?thesis by simp
  next
    case (Cons x s')
    with Cons.IH [of s'] show ?thesis by simp
  qed
qed

lemma take_digit_run_eq: "take (digit_run s) s = takeWhile is_digit s"
  unfolding digit_run_def
  by (metis append_eq_conv_conj takeWhile_dropWhile_id)

lemma candidates_Nil: "digit_run s = 0 \<Longrightarrow> candidates s = []"
  by (simp add: candidates_def)

lemma candidates_Cons: "0 < digit_run s \<Longrightarrow> \<exists>ks. candidates s = digit_run s # ks"
  by (simp add: candidates_def)

lemma digit_run_pos: "0 < digit_run s \<longleftrightarrow> (case s of [] \<Rightarrow> False | d # _ \<Rightarrow> is_digit d)"
  by (cases s) (simp_all add: digit_run_def)

lemma match_here_last_group:
  "match_here [Group_Digits] s =
     (if 0 < digit_run s then Some [takeWhile is_digit s] else None)"
proof (cases "0 < digit_run s")
  case True
  then obtain ks where "candidates s = digit_run s # ks"
    using candidates_Cons by blast
  with True show ?thesis by (simp add: take_digit_run_eq)
next
  case False
  then show ?thesis by (simp add: candidates_Nil)
qed

lemma length_ascii [simp]: "length (ascii l) = length l"
  by (simp add: ascii_def)

lemma match_here_lit:
  "match_here (lit l @ p) s =
     (if take (length l) s = ascii l then match_here p (drop (length l) s) else None)"
  unfolding lit_def using match_here_Chrs [of "ascii l" p s] by simp

lemma match_here_lit_group:
  "match_here (lit l @ [Group_Digits]) s =
     (if link_at (ascii l) s then Some [takeWhile is_digit (drop (length l) s)] else None)"
  by (simp add: match_here_lit match_here_last_group link_at_def digit_run_pos
        del: match_here.simps)

lemma match_here_no_link:
  "\<not> link_at (ascii l) s \<Longrightarrow> match_here (lit l @ Digits # p) s = None"
proof -
  assume a: "\<not> link_at (ascii l) s"
  show ?thesis
  proof (cases "take (length l) s = ascii l")
    case True
    with a have "digit_run (drop (length l) s) = 0"
      using digit_run_pos [of "drop (length l) s"] by (auto simp: link_at_def)
    with True show ?thesis
      by (simp add: match_here_lit candidates_Nil)
  next
    case False
    then show ?thesis by (simp add: match_here_lit)
  qed
qed

lemma re_search_skip:
  "list_all (\<lambda>i. match_here p (drop i (pre @ r)) = None) [0 ..< length pre]
     \<Longrightarrow> re_search p (pre @ r) = re_search p r"
proof (induction pre)
  case Nil
  then show ?case by simp
next
  case (Cons c pre)
  from Cons.prems have all: "\<forall>i<Suc (length pre). match_here p (drop i ((c # pre) @ r)) = None"
    unfolding list_all_iff by (auto simp del: upt_Suc)
  then have "match_here p (drop 0 ((c # pre) @ r)) = None" by blast
  then have h: "match_here p (c # pre @ r) = None" by simp
  have "\<forall>i<length pre. match_here p (drop i (pre @ r)) = None"
  proof (intro allI impI)
    fix i assume "i < length pre"
    then have "match_here p (drop (Suc i) ((c # pre) @ r)) = None" using all by blast
    then show "match_here p (drop i (pre @ r)) = None" by simp
  qed
  then have "re_search p (pre @ r) = re_search p r"
    by (intro Cons.IH) (simp add: list_all_iff)
  with h show ?case by simp
qed

lemma re_search_here: "match_here p s = Some gs \<Longrightarrow> re_search p s = Some gs"
  by (cases s) simp_all

lemma match_here_drop_prefix:
  "count_groups q = 0 \<Longrightarrow> match_here (q @ p) s = Some gs
     \<Longrightarrow> \<exists>k. match_here p (drop k s) = Some gs"
proof (induction q arbitrary: s)
  case Nil
  then show ?case by (intro exI [of _ 0]) simp
next
  case (Cons a q)
  show ?case
  proof (cases a)
    case (Chr c)
    with Cons.prems obtain x s' where s: "s = x # s'" and m: "match_here (q @ p) s' = Some gs"
      by (auto split: list.splits if_splits)
    from Cons.prems Chr have "count_groups q = 0" by simp
    from Cons.IH [OF this m] obtain k where "match_here p (drop k s') = Some gs" by blast
    with s show ?thesis by (intro exI [of _ "Suc k"]) simp
  next
    case Digits
    with Cons.prems obtain j where m: "match_here (q @ p) (drop j s) = Some gs"
      by (auto dest: first_some_map_Some)
    from Cons.prems Digits have "count_groups q = 0" by simp
    from Cons.IH [OF this m] obtain k where "match_here p (drop k (drop j s)) = Some gs" by blast
    then show ?thesis by (intro exI [of _ "k + j"]) (simp add: add.commute)
  next
    case Group_Digits
    with Cons.prems show ?thesis by simp
  qed
qed

lemma first_match_single:
  "list_all (\<lambda>p. count_groups p = 1) ps \<Longrightarrow>
     first_match ps url = Inr None \<and> list_all (\<lambda>p. re_search p url = None) ps
   \<or> (\<exists>gs t. first_match ps url = Inr (Some t) \<and> list_ex (\<lambda>p. re_search p url = Some (t # gs)) ps)"
proof (induction ps)
  case Nil
  then show ?case by simp
next
  case (Cons p ps)
  show ?case
  proof (cases "re_search p url")
    case None
    with Cons show ?thesis by auto
  next
    case (Some gs)
    then obtain i where "match_here p (drop i url) = Some gs"
      using re_search_Some by blast
    then have "length gs = count_groups p" by (rule match_here_count)
    with Cons.prems have "length gs = 1" by simp
    then obtain t where "gs = [t]" by (cases gs) auto
    with Some show ?thesis
      by (intro disjI2 exI [of _ "[]"] exI [of _ t]) (simp add: group_def)
  qed
qed

lemma count_groups_lit [simp]: "count_groups (lit l @ p) = count_groups p"
  unfolding lit_def ascii_def by (induction l) simp_all

lemma patterns_single: "list_all (\<lambda>p. count_groups p = 1) patterns"
  by (simp add: patterns_def)

lemma patterns_without_album_single: "list_all (\<lambda>p. count_groups p = 1) patterns_without_album"
  by (simp add: patterns_without_album_def)

lemma album_pattern_split:
  "lit ''album/'' @ [Digits] @ lit ''/track/'' @ [Group_Digits]
     = (lit ''album/'' @ [Digits, Chr 47]) @ (lit ''track/'' @ [Group_Digits])"
  by (simp add: lit_def ascii_def)

lemma album_match_is_track_match:
  assumes "match_here (lit ''album/'' @ [Digits] @ lit ''/track/'' @ [Group_Digits]) s = Some gs"
  shows "\<exists>k. match_here (lit ''track/'' @ [Group_Digits]) (drop k s) = Some gs"
proof -
  have "count_groups (lit ''album/'' @ [Digits, Chr 47]) = 0" by simp
  moreover from assms
  have "match_here ((lit ''album/'' @ [Digits, Chr 47]) @ (lit ''track/'' @ [Group_Digits])) s = Some gs"
    by (simp only: album_pattern_split)
  ultimately show ?thesis by (rule match_here_drop_prefix)
qed

lemma album_search_needs_track:
  assumes "re_search (lit ''track/'' @ [Group_Digits]) url = None"
  shows "re_search (lit ''album/'' @ [Digits] @ lit ''/track/'' @ [Group_Digits]) url = None"
proof (rule ccontr)
  assume "re_search (lit ''album/'' @ [Digits] @ lit ''/track/'' @ [Group_Digits]) url \<noteq> None"
  then obtain gs where "re_search (lit ''album/'' @ [Digits] @ lit ''/track/'' @ [Group_Digits]) url = Some gs"
    by blast
  then obtain i where "match_here (lit ''album/'' @ [Digits] @ lit ''/track/'' @ [Group_Digits]) (drop i url) = Some gs"
    using re_search_Some by blast
  then obtain k where "match_here (lit ''track/'' @ [Group_Digits]) (drop k (drop i url)) = Some gs"
    using album_match_is_track_match by blast
  then have "match_here (lit ''track/'' @ [Group_Digits]) (drop (k + i) url) = Some gs"
    by (simp add: add.commute)
  moreover from assms have "match_here (lit ''track/'' @ [Group_Digits]) (drop (k + i) url) = None"
    by (simp only: re_search_None)
  ultimately show False by simp
qed

text \<open>
  Claim C5. On every text \<open>extract_track_id\<close> returns without raising: the result is
  \<^verbatim>\<open>None\<close>, exactly when none of the three patterns is found, or an identifier, and an
  identifier is a non-empty string of characters of the class \<^verbatim>\<open>\d\<close> only.
\<close>

theorem extract_track_id_digits:
  "(extract_track_id url = Inr None
      \<or> (\<exists>t. extract_track_id url = Inr (Some t) \<and> t \<noteq> [] \<and> list_all is_digit t))
   \<and> (extract_track_id url = Inr None) = list_all (\<lambda>p. re_search p url = None) patterns"
proof -
  from first_match_single [OF patterns_single, of url]
  consider (none) "first_match patterns url = Inr None"
      "list_all (\<lambda>p. re_search p url = None) patterns"
    | (some) gs t where "first_match patterns url = Inr (Some t)"
      "list_ex (\<lambda>p. re_search p url = Some (t # gs)) patterns"
    by blast
  then show ?thesis
  proof cases
    case none
    then show ?thesis by (simp add: extract_track_id_def)
  next
    case some
    from some(2) obtain p where "re_search p url = Some (t # gs)" and p: "p \<in> set patterns"
      by (auto simp: list_ex_iff)
    then obtain i where "match_here p (drop i url) = Some (t # gs)"
      using re_search_Some by blast
    then have "list_all (\<lambda>g. g \<noteq> [] \<and> list_all is_digit g) (t # gs)"
      by (rule match_here_groups)
    then have t: "t \<noteq> []" "list_all is_digit t" by simp_all
    from p \<open>re_search p url = Some (t # gs)\<close>
    have "\<not> list_all (\<lambda>p. re_search p url = None) patterns"
      by (auto simp: list_all_iff)
    with some(1) t show ?thesis by (simp add: extract_track_id_def)
  qed
qed

text \<open>
  Claim C9. On every text \<open>extract_track_id\<close> returns what the same loop returns without
  the album-qualified pattern: wherever the second pattern matches, the first pattern
  matches at some position of the text with the same captured group, so the first pattern
  has already decided the result.
\<close>

theorem album_pattern_redundant:
  "extract_track_id url = first_match patterns_without_album url
   \<and> (\<forall>i gs. match_here (patterns ! 1) (drop i url) = Some gs
         \<longrightarrow> (\<exists>j. match_here (patterns ! 0) (drop j url) = Some gs))"
proof
  show "extract_track_id url = first_match patterns_without_album url"
  proof (cases "re_search (lit ''track/'' @ [Group_Digits]) url")
    case None
    then have "re_search (lit ''album/'' @ [Digits] @ lit ''/track/'' @ [Group_Digits]) url = None"
      by (rule album_search_needs_track)
    with None show ?thesis
      by (simp add: extract_track_id_def patterns_def patterns_without_album_def)
  next
    case (Some gs)
    then show ?thesis
      by (simp add: extract_track_id_def patterns_def patterns_without_album_def)
  qed
next
  show "\<forall>i gs. match_here (patterns ! 1) (drop i url) = Some gs
         \<longrightarrow> (\<exists>j. match_here (patterns ! 0) (drop j url) = Some gs)"
  proof (intro allI impI)
    fix i gs
    assume "match_here (patterns ! 1) (drop i url) = Some gs"
    then have "match_here (lit ''album/'' @ [Digits] @ lit ''/track/'' @ [Group_Digits]) (drop i url) = Some gs"
      by (simp add: patterns_def)
    then obtain k where "match_here (lit ''track/'' @ [Group_Digits]) (drop k (drop i url)) = Some gs"
      using album_match_is_track_match by blast
    then have "match_here (patterns ! 0) (drop (k + i) url) = Some gs"
      by (simp add: patterns_def add.commute)
    then show "\<exists>j. match_here (patterns ! 0) (drop j url) = Some gs" ..
  qed
qed

theorem album_pattern_redundant_witness:
  "match_here (patterns ! 1) (drop 4 (ascii ''see album/1/track/42'')) = Some [ascii ''42'']
   \<and> (\<exists>j. match_here (patterns ! 0) (drop j (ascii ''see album/1/track/42'')) = Some [ascii ''42''])
   \<and> extract_track_id (ascii ''see album/1/track/42'')
       = first_match patterns_without_album (ascii ''see album/1/track/42'')"
proof -
  have h: "match_here (patterns ! 1) (drop 4 (ascii ''see album/1/track/42'')) = Some [ascii ''42'']"
    by (simp add: patterns_def lit_def ascii_def candidates_def digit_run_def is_digit_def
        nd_ranges_def)
  from album_pattern_redundant [of "ascii ''see album/1/track/42''"] h
  have "\<exists>j. match_here (patterns ! 0) (drop j (ascii ''see album/1/track/42'')) = Some [ascii ''42'']"
    by blast
  with h album_pattern_redundant [of "ascii ''see album/1/track/42''"] show ?thesis by blast
qed

lemma no_link_beforeD:
  "no_link_before l n s \<Longrightarrow> i < n \<Longrightarrow> \<not> link_at l (drop i s)"
  by (simp add: no_link_before_def list_all_iff)

lemma takeWhile_digits_stop:
  "list_all is_digit ds \<Longrightarrow> no_digit_next post \<Longrightarrow> takeWhile is_digit (ds @ post) = ds"
  by (induction ds) (auto simp: no_digit_next_def split: list.splits)

lemma is_digit_ascii: "48 \<le> c \<Longrightarrow> c \<le> 57 \<Longrightarrow> is_digit c"
  by (simp add: is_digit_def nd_ranges_def)

lemma digits_123456: "list_all is_digit (ascii ''123456'')"
  by (simp add: ascii_def is_digit_ascii)

lemma search_track_link:
  assumes "no_digit_next post"
    and "no_link_before (ascii ''track/'') (length pre) (pre @ ascii ''track/123456'' @ post)"
  shows "re_search (lit ''track/'' @ [Group_Digits]) (pre @ ascii ''track/123456'' @ post)
           = Some [ascii ''123456'']"
proof -
  let ?p = "lit ''track/'' @ [Group_Digits]"
  let ?r = "ascii ''track/123456'' @ post"
  have r: "?r = ascii ''track/'' @ ascii ''123456'' @ post" by (simp add: ascii_def)
  have "list_all (\<lambda>i. match_here ?p (drop i (pre @ ?r)) = None) [0 ..< length pre]"
    using assms(2) unfolding no_link_before_def list_all_iff
    by (simp add: match_here_lit_group del: match_here.simps)
  then have "re_search ?p (pre @ ?r) = re_search ?p ?r" by (rule re_search_skip)
  moreover have "link_at (ascii ''track/'') ?r"
    unfolding r by (simp add: link_at_def ascii_def is_digit_ascii)
  then have "match_here ?p ?r = Some [takeWhile is_digit (drop (length ''track/'') ?r)]"
    by (simp add: match_here_lit_group del: match_here.simps)
  moreover have "drop (length ''track/'') ?r = ascii ''123456'' @ post"
    unfolding r by (simp add: ascii_def)
  moreover have "takeWhile is_digit (ascii ''123456'' @ post) = ascii ''123456''"
    using digits_123456 assms(1) by (rule takeWhile_digits_stop)
  ultimately show ?thesis by (simp add: re_search_here del: match_here.simps)
qed

lemma extract_track_link:
  assumes "no_digit_next post"
    and "no_link_before (ascii ''track/'') (length pre) (pre @ ascii ''track/123456'' @ post)"
  shows "extract_track_id (pre @ ascii ''track/123456'' @ post) = Inr (Some (ascii ''123456''))"
  using search_track_link [OF assms]
  by (simp add: extract_track_id_def patterns_def group_def del: match_here.simps)

lemma takeWhile_no_digit_next: "no_digit_next post \<Longrightarrow> takeWhile is_digit post = []"
  by (cases post) (simp_all add: no_digit_next_def)

lemma match_playlist_here:
  assumes "no_digit_next post"
  shows "match_here (lit ''playlists/'' @ [Digits] @ lit ''/'' @ [Digits] @ lit ''?trackId='' @ [Group_Digits])
           (ascii ''playlists/1/2?trackId=123456'' @ post) = Some [ascii ''123456'']"
  using takeWhile_no_digit_next [OF assms]
  by (simp add: lit_def ascii_def candidates_def digit_run_def is_digit_def nd_ranges_def)

lemma link_at_Nil: "l \<noteq> [] \<Longrightarrow> \<not> link_at l []"
  by (auto simp: link_at_def)

lemma search_no_track:
  assumes "no_link_before (ascii ''track/'') (length s) s"
  shows "re_search (lit ''track/'' @ [Group_Digits]) s = None"
proof -
  have "match_here (lit ''track/'' @ [Group_Digits]) (drop i s) = None" for i
  proof (cases "i < length s")
    case True
    with assms have "\<not> link_at (ascii ''track/'') (drop i s)" by (rule no_link_beforeD)
    then show ?thesis by (simp add: match_here_lit_group del: match_here.simps)
  next
    case False
    then have "drop i s = []" by simp
    moreover have "\<not> link_at (ascii ''track/'') []"
      by (rule link_at_Nil) (simp add: ascii_def)
    ultimately show ?thesis by (simp add: match_here_lit_group del: match_here.simps)
  qed
  then show ?thesis by (simp add: re_search_None del: match_here.simps)
qed

lemma extract_playlist_link:
  assumes "no_digit_next post"
    and "no_link_before (ascii ''track/'') (length (pre @ ascii ''playlists/1/2?trackId=123456'' @ post))
           (pre @ ascii ''playlists/1/2?trackId=123456'' @ post)"
    and "no_link_before (ascii ''playlists/'') (length pre)
           (pre @ ascii ''playlists/1/2?trackId=123456'' @ post)"
  shows "extract_track_id (pre @ ascii ''playlists/1/2?trackId=123456'' @ post)
           = Inr (Some (ascii ''123456''))"
proof -
  let ?s = "pre @ ascii ''playlists/1/2?trackId=123456'' @ post"
  let ?p3 = "lit ''playlists/'' @ [Digits] @ lit ''/'' @ [Digits] @ lit ''?trackId='' @ [Group_Digits]"
  have p1: "re_search (lit ''track/'' @ [Group_Digits]) ?s = None"
    using assms(2) by (rule search_no_track)
  then have p2: "re_search (lit ''album/'' @ [Digits] @ lit ''/track/'' @ [Group_Digits]) ?s = None"
    by (rule album_search_needs_track)
  have "list_all (\<lambda>i. match_here ?p3 (drop i ?s) = None) [0 ..< length pre]"
    unfolding list_all_iff
  proof
    fix i assume "i \<in> set [0 ..< length pre]"
    then have "i < length pre" by simp
    with assms(3) have "\<not> link_at (ascii ''playlists/'') (drop i ?s)" by (rule no_link_beforeD)
    then have "match_here (lit ''playlists/'' @ Digits # (lit ''/'' @ [Digits] @ lit ''?trackId='' @ [Group_Digits])) (drop i ?s) = None"
      by (rule match_here_no_link)
    then show "match_here ?p3 (drop i ?s) = None" by simp
  qed
  then have "re_search ?p3 ?s = re_search ?p3 (ascii ''playlists/1/2?trackId=123456'' @ post)"
    by (rule re_search_skip)
  also have "\<dots> = Some [ascii ''123456'']"
    using match_playlist_here [OF assms(1)] by (rule re_search_here)
  finally have p3: "re_search ?p3 ?s = Some [ascii ''123456'']" .
  from p1 p2 p3 show ?thesis
    by (simp add: extract_track_id_def patterns_def group_def del: match_here.simps)
qed

text \<open>
  Claim C1, as amended. A text \<open>pre @ link @ post\<close> in which no digit follows the link
  yields \<^verbatim>\<open>"123456"\<close> when the link is the leftmost place a pattern can take: for
  \<^verbatim>\<open>track/123456\<close> and \<^verbatim>\<open>album/1/track/123456\<close>, when no \<^verbatim>\<open>track/\<close> followed by a digit
  starts before the \<^verbatim>\<open>track/\<close> of the link; for \<^verbatim>\<open>playlists/1/2?trackId=123456\<close>, when no
  \<^verbatim>\<open>track/\<close> followed by a digit occurs in the text at all and no \<^verbatim>\<open>playlists/\<close> followed
  by a digit starts before the link.
\<close>

theorem extract_track_id_links:
  assumes "no_digit_next post"
  shows "(no_link_before (ascii ''track/'') (length pre) (pre @ ascii ''track/123456'' @ post)
            \<longrightarrow> extract_track_id (pre @ ascii ''track/123456'' @ post) = Inr (Some (ascii ''123456'')))
       \<and> (no_link_before (ascii ''track/'') (length pre + 8) (pre @ ascii ''album/1/track/123456'' @ post)
            \<longrightarrow> extract_track_id (pre @ ascii ''album/1/track/123456'' @ post) = Inr (Some (ascii ''123456'')))
       \<and> (no_link_before (ascii ''track/'') (length (pre @ ascii ''playlists/1/2?trackId=123456'' @ post))
              (pre @ ascii ''playlists/1/2?trackId=123456'' @ post)
          \<and> no_link_before (ascii ''playlists/'') (length pre)
              (pre @ ascii ''playlists/1/2?trackId=123456'' @ post)
            \<longrightarrow> extract_track_id (pre @ ascii ''playlists/1/2?trackId=123456'' @ post)
                  = Inr (Some (ascii ''123456'')))"
proof (intro conjI impI)
  assume "no_link_before (ascii ''track/'') (length pre) (pre @ ascii ''track/123456'' @ post)"
  with assms show "extract_track_id (pre @ ascii ''track/123456'' @ post) = Inr (Some (ascii ''123456''))"
    by (rule extract_track_link)
next
  assume a: "no_link_before (ascii ''track/'') (length pre + 8) (pre @ ascii ''album/1/track/123456'' @ post)"
  have e: "pre @ ascii ''album/1/track/123456'' @ post = (pre @ ascii ''album/1/'') @ ascii ''track/123456'' @ post"
    by (simp add: ascii_def)
  have l: "length (pre @ ascii ''album/1/'') = length pre + 8" by simp
  have "no_link_before (ascii ''track/'') (length (pre @ ascii ''album/1/''))
          ((pre @ ascii ''album/1/'') @ ascii ''track/123456'' @ post)"
    using a unfolding e l .
  with assms have "extract_track_id ((pre @ ascii ''album/1/'') @ ascii ''track/123456'' @ post)
      = Inr (Some (ascii ''123456''))"
    by (rule extract_track_link)
  then show "extract_track_id (pre @ ascii ''album/1/track/123456'' @ post) = Inr (Some (ascii ''123456''))"
    by (simp only: e)
next
  assume "no_link_before (ascii ''track/'') (length (pre @ ascii ''playlists/1/2?trackId=123456'' @ post))
              (pre @ ascii ''playlists/1/2?trackId=123456'' @ post)
          \<and> no_link_before (ascii ''playlists/'') (length pre)
              (pre @ ascii ''playlists/1/2?trackId=123456'' @ post)"
  with assms show "extract_track_id (pre @ ascii ''playlists/1/2?trackId=123456'' @ post)
                  = Inr (Some (ascii ''123456''))"
    by (intro extract_playlist_link) simp_all
qed

text \<open>
  The claim as the specification states it (every text that contains one of the links)
  fails: the group is greedy, so a further digit after the link belongs to the identifier,
  and the search is leftmost, so an earlier link wins.
\<close>

theorem extract_track_id_links_counterexample:
  "ascii ''track/1234567'' = [] @ ascii ''track/123456'' @ ascii ''7''
   \<and> extract_track_id (ascii ''track/1234567'') = Inr (Some (ascii ''1234567''))
   \<and> ascii ''1234567'' \<noteq> ascii ''123456''
   \<and> ascii ''track/9 album/1/track/123456'' = ascii ''track/9 '' @ ascii ''album/1/track/123456'' @ []
   \<and> extract_track_id (ascii ''track/9 album/1/track/123456'') = Inr (Some (ascii ''9''))
   \<and> ascii ''9'' \<noteq> ascii ''123456''"
  by (simp add: extract_track_id_def patterns_def lit_def ascii_def candidates_def digit_run_def
      is_digit_def nd_ranges_def group_def)

theorem extract_track_id_links_witness:
  "no_digit_next (ascii ''?utm=1'')
   \<and> no_link_before (ascii ''track/'') (length (ascii ''https://music.yandex.ru/''))
        (ascii ''https://music.yandex.ru/'' @ ascii ''track/123456'' @ ascii ''?utm=1'')
   \<and> extract_track_id (ascii ''https://music.yandex.ru/'' @ ascii ''track/123456'' @ ascii ''?utm=1'')
        = Inr (Some (ascii ''123456''))"
proof -
  have h: "no_digit_next (ascii ''?utm=1'')"
    by (simp add: no_digit_next_def ascii_def is_digit_def nd_ranges_def)
  have n: "no_link_before (ascii ''track/'') (length (ascii ''https://music.yandex.ru/''))
        (ascii ''https://music.yandex.ru/'' @ ascii ''track/123456'' @ ascii ''?utm=1'')"
    by (simp add: no_link_before_def link_at_def ascii_def)
  from extract_track_id_links [OF h, of "ascii ''https://music.yandex.ru/''"] n
  have "extract_track_id (ascii ''https://music.yandex.ru/'' @ ascii ''track/123456'' @ ascii ''?utm=1'')
        = Inr (Some (ascii ''123456''))" by blast
  with h n show ?thesis by blast
qed

end
